theory Spec2Isabelle
  imports Main "HOL-Library.Sublist" "HOL-Library.List_Lexorder"
begin

section \<open>Python strings\<close>

text \<open>
  A Python \<^verbatim>\<open>str\<close> is a sequence of Unicode code points and \<^verbatim>\<open>len\<close> counts code
  points, so a string is modelled as a list of code points (natural numbers).
  \<open>ustr\<close> embeds an ASCII literal of the source.
\<close>

type_synonym codepoint = nat
type_synonym pystr = "codepoint list"

definition ustr :: "string \<Rightarrow> pystr" where
  "ustr s = map of_char s"

text \<open>
  \<^verbatim>\<open>str.isspace\<close>, \<^verbatim>\<open>str.strip()\<close> and the regular expression class \<^verbatim>\<open>\s\<close> (on
  \<^verbatim>\<open>str\<close> patterns) all use the same set of white-space code points: U+0009..U+000D,
  U+001C..U+0020, U+0085, U+00A0, U+1680, U+2000..U+200A, U+2028, U+2029, U+202F,
  U+205F and U+3000.
\<close>

definition isspace :: "codepoint \<Rightarrow> bool" where
  "isspace c \<longleftrightarrow>
     (9 \<le> c \<and> c \<le> 13) \<or> (28 \<le> c \<and> c \<le> 32) \<or> c = 133 \<or> c = 160 \<or> c = 5760 \<or>
     (8192 \<le> c \<and> c \<le> 8202) \<or> c = 8232 \<or> c = 8233 \<or> c = 8239 \<or> c = 8287 \<or> c = 12288"

definition nonspace :: "codepoint \<Rightarrow> bool" where
  "nonspace c \<longleftrightarrow> \<not> isspace c"

text \<open>\<^verbatim>\<open>s.strip()\<close>: white space removed at both ends.\<close>

definition strip :: "pystr \<Rightarrow> pystr" where
  "strip s = rev (dropWhile isspace (rev (dropWhile isspace s)))"

text \<open>\<^verbatim>\<open>k in t\<close> on strings: \<open>k\<close> occurs in \<open>t\<close> as a contiguous substring.\<close>

fun str_in :: "pystr \<Rightarrow> pystr \<Rightarrow> bool" where
  "str_in k [] = (k = [])"
| "str_in k (c # cs) = (prefix k (c # cs) \<or> str_in k cs)"

text \<open>
  Python slicing \<^verbatim>\<open>xs[i:j]\<close> with integer bounds: a negative bound counts from the end,
  and both bounds are clamped to the length.
\<close>

definition slice_bound :: "int \<Rightarrow> nat \<Rightarrow> nat" where
  "slice_bound i n = (if i < 0 then nat (max 0 (i + int n)) else min (nat i) n)"

definition py_slice :: "'a list \<Rightarrow> int \<Rightarrow> int \<Rightarrow> 'a list" where
  "py_slice xs i j =
     (let a = slice_bound i (length xs); b = slice_bound j (length xs)
      in take (b - a) (drop a xs))"

section \<open>Endpoint discovery: \<^verbatim>\<open>find_urls\<close>\<close>

text \<open>
  \<^verbatim>\<open>re.finditer(r"POST\s+(/\S+)", text)\<close>. \<open>match_post\<close> is the match of the pattern
  anchored at the head of the text: the literal \<^verbatim>\<open>POST\<close>, a non-empty run of white
  space, a slash and a non-empty run of non-space characters. Both runs are greedy.
  Giving back white space never helps (the character after a shorter run is white
  space, not a slash), and nothing follows the last run, so the greedy choice is the
  match the backtracking engine reports. The result is group 1 and the text after the
  match.
\<close>

definition match_post :: "pystr \<Rightarrow> (pystr \<times> pystr) option" where
  "match_post t =
     (if take 4 t = ustr ''POST'' then
        (let r = drop 4 t in
         if takeWhile isspace r = [] then None
         else (case dropWhile isspace r of
                 [] \<Rightarrow> None
               | c # cs \<Rightarrow>
                   if c = of_char CHR ''/'' \<and> takeWhile nonspace cs \<noteq> []
                   then Some (c # takeWhile nonspace cs, dropWhile nonspace cs)
                   else None))
      else None)"

text \<open>
  The iterator yields the matches from left to right without overlap: after a match the
  search resumes at its end, otherwise one character further. The pattern never matches
  the empty string. \<open>finditer\<close> lists group 1 of every match.
\<close>

function finditer :: "pystr \<Rightarrow> pystr list" where
  "finditer [] = []"
| "finditer (c # cs) =
     (case match_post (c # cs) of
        Some (g, r) \<Rightarrow> g # finditer r
      | None \<Rightarrow> finditer cs)"
  by pat_completeness auto
termination
proof (relation "measure length", goal_cases)
  case 1
  show ?case by simp
next
  case (2 c cs)
  show ?case by simp
next
  case (3 c cs x g r)
  let ?t = "c # cs"
  from 3 obtain d ds where dw: "dropWhile isspace (drop 4 ?t) = d # ds"
    and r: "r = dropWhile nonspace ds"
    by (auto simp: match_post_def Let_def split: if_splits list.splits)
  have "length r \<le> length ds"
    unfolding r by (rule length_dropWhile_le)
  also have "length ds < length (dropWhile isspace (drop 4 ?t))"
    unfolding dw by simp
  also have "\<dots> \<le> length (drop 4 ?t)"
    by (rule length_dropWhile_le)
  also have "\<dots> \<le> length ?t"
    by simp
  finally show ?case by simp
qed

text \<open>
  The loop of \<^verbatim>\<open>find_urls\<close> over the matches, with its two variables \<^verbatim>\<open>urls\<close> and
  \<^verbatim>\<open>seen\<close>.
\<close>

fun urls_loop :: "pystr list \<Rightarrow> pystr list \<times> pystr set \<Rightarrow> pystr list \<times> pystr set" where
  "urls_loop [] (urls, seen) = (urls, seen)"
| "urls_loop (u # ms) (urls, seen) =
     (if u \<notin> seen then urls_loop ms (urls @ [u], insert u seen)
      else urls_loop ms (urls, seen))"

definition find_urls :: "pystr \<Rightarrow> pystr list" where
  "find_urls text = fst (urls_loop (finditer text) ([], {}))"

text \<open>
  \<^verbatim>\<open>re.search(re.escape(url), text)\<close>: the escaped pattern matches the string literally,
  so the search is for the first position where \<open>url\<close> occurs in \<open>text\<close>;
  \<open>None\<close> is Python's \<^verbatim>\<open>None\<close> (no match), \<open>Some k\<close> a match with
  \<^verbatim>\<open>m.start() == k\<close>.
\<close>

fun search_from :: "pystr \<Rightarrow> pystr \<Rightarrow> nat \<Rightarrow> nat option" where
  "search_from u [] k = (if u = [] then Some k else None)"
| "search_from u (c # cs) k =
     (if prefix u (c # cs) then Some k else search_from u cs (Suc k))"

definition re_search_escaped :: "pystr \<Rightarrow> pystr \<Rightarrow> nat option" where
  "re_search_escaped url text = search_from url text 0"

section \<open>Windowed block extraction: \<^verbatim>\<open>json_blocks_near\<close>\<close>

definition lbrace :: codepoint where
  "lbrace = of_char CHR ''{''"

definition rbrace :: codepoint where
  "rbrace = of_char CHR ''}''"

text \<open>\<^verbatim>\<open>span.find(ch, i)\<close> for \<open>0 \<le> i\<close>; \<open>None\<close> is the result \<^verbatim>\<open>-1\<close>.\<close>

definition find_char :: "codepoint \<Rightarrow> pystr \<Rightarrow> nat \<Rightarrow> nat option" where
  "find_char ch s i =
     (let r = drop i s
      in if ch \<in> set r then Some (i + length (takeWhile (\<lambda>c. c \<noteq> ch) r)) else None)"

text \<open>
  The inner \<^verbatim>\<open>for j in range(p, len(span))\<close> loop, run on the characters of the span
  from index \<open>j\<close> on. \<open>Some j\<close> is the index of the closing brace at which the loop
  breaks; \<open>None\<close> is the \<^verbatim>\<open>else\<close> branch of the loop (the span ends first).
\<close>

fun close_scan :: "pystr \<Rightarrow> nat \<Rightarrow> int \<Rightarrow> nat option" where
  "close_scan [] j depth = None"
| "close_scan (ch # cs) j depth =
     (if ch = lbrace then close_scan cs (Suc j) (depth + 1)
      else if ch = rbrace then
        (if depth - 1 = 0 then Some j else close_scan cs (Suc j) (depth - 1))
      else close_scan cs (Suc j) depth)"

text \<open>The \<^verbatim>\<open>while len(out) < max_blocks\<close> loop, with its variables \<^verbatim>\<open>i\<close> and \<^verbatim>\<open>out\<close>.\<close>

function blocks_loop :: "pystr \<Rightarrow> int \<Rightarrow> nat \<Rightarrow> pystr list \<Rightarrow> pystr list" where
  "blocks_loop span max_blocks i out =
     (if int (length out) < max_blocks then
        (case find_char lbrace span i of
           None \<Rightarrow> out
         | Some p \<Rightarrow>
             (case close_scan (drop p span) p 0 of
                None \<Rightarrow> out
              | Some j \<Rightarrow>
                  blocks_loop span max_blocks (Suc j)
                    (if 50 < length (strip (take (Suc j - p) (drop p span)))
                     then out @ [strip (take (Suc j - p) (drop p span))]
                     else out)))
      else out)"
  by pat_completeness auto
termination
proof (relation "measure (\<lambda>(span, max_blocks, i, out). Suc (length span) - i)", goal_cases)
  case 1
  show ?case by simp
next
  case (2 span max_blocks i out p j)
  have scan: "close_scan s q d = Some k \<Longrightarrow> q \<le> k \<and> k < q + length s" for s q d k
    by (induction s q d rule: close_scan.induct) (fastforce split: if_splits)+
  from 2 have "i \<le> p"
    by (auto simp: find_char_def Let_def split: if_splits)
  moreover from 2 scan [of "drop p span" p 0 j] have "p \<le> j" "j < p + length (drop p span)"
    by simp_all
  ultimately show ?case by simp
qed

definition json_blocks_near :: "pystr \<Rightarrow> int \<Rightarrow> int \<Rightarrow> int \<Rightarrow> pystr list" where
  "json_blocks_near text center radius max_blocks =
     (let s = max 0 (center - radius);
          e = min (int (length text)) (center + radius);
          span = py_slice text s e
      in blocks_loop span max_blocks 0 [])"

section \<open>Role classification and normalisation: \<^verbatim>\<open>pick_io\<close>\<close>

text \<open>
  The library functions the program calls on strings that are not its own code:
  \<^verbatim>\<open>str.lower\<close> (the Unicode case mapping), \<^verbatim>\<open>json.loads\<close> and
  \<^verbatim>\<open>json.dumps(..., ensure_ascii=False, indent=2)\<close>. They are parameters of the model.
  The two JSON functions may raise; \<open>Inl e\<close> is an exception \<open>e\<close> derived from
  \<^verbatim>\<open>Exception\<close>, \<open>'v\<close> is the type of parsed JSON values.
\<close>

record ('v, 'e) pylib =
  str_lower :: "pystr \<Rightarrow> pystr"
  json_loads :: "pystr \<Rightarrow> 'e + 'v"
  json_dumps :: "'v \<Rightarrow> 'e + pystr"

text \<open>
  \<^verbatim>\<open>pick_io\<close> compares blocks with \<^verbatim>\<open>is not\<close>, which is object identity, not equality
  of contents. A string object is therefore its identity together with its characters.
\<close>

datatype strobj = StrObj (ident: nat) (chars: pystr)

text \<open>
  The literal \<^verbatim>\<open>""\<close>. Its identity is never compared with that of a block: when the
  block list is not empty, \<^verbatim>\<open>inp\<close> is a block of the list by the time line 95 runs.
\<close>

definition empty_str :: strobj where
  "empty_str = StrObj 0 []"

definition resp_keywords :: "pystr list" where
  "resp_keywords = map ustr [''msgrshdr'', ''rspcode'', ''responsejson'', ''error'']"

definition req_keywords :: "pystr list" where
  "req_keywords = map ustr [''securitycontext'', ''custid'', ''userid'', ''data'', ''body'']"

definition is_resp :: "('v, 'e) pylib \<Rightarrow> pystr \<Rightarrow> bool" where
  "is_resp lib b = (let t = str_lower lib b in list_ex (\<lambda>k. str_in k t) resp_keywords)"

definition is_req :: "('v, 'e) pylib \<Rightarrow> pystr \<Rightarrow> bool" where
  "is_req lib b =
     (let t = str_lower lib b in list_ex (\<lambda>k. str_in k t) req_keywords \<and> \<not> is_resp lib b)"

text \<open>
  \<^verbatim>\<open>max(blocks, key=len)\<close> on a non-empty list, given as its first element and the rest:
  the first block of maximal length (a later block replaces the current maximum only when
  it is strictly longer).
\<close>

fun max_len :: "strobj \<Rightarrow> strobj list \<Rightarrow> strobj" where
  "max_len m [] = m"
| "max_len m (b # bs) = max_len (if length (chars m) < length (chars b) then b else m) bs"

text \<open>Lines 89 to 96: the selection of the two blocks, before normalisation.\<close>

definition select_inp :: "('v, 'e) pylib \<Rightarrow> strobj list \<Rightarrow> strobj" where
  "select_inp lib blocks =
     (let inp = (case find (\<lambda>b. is_req lib (chars b)) blocks of
                   Some b \<Rightarrow> b | None \<Rightarrow> empty_str)
      in if chars inp = [] \<and> blocks \<noteq> [] then max_len (hd blocks) (tl blocks) else inp)"

definition select_out :: "('v, 'e) pylib \<Rightarrow> strobj list \<Rightarrow> strobj \<Rightarrow> strobj" where
  "select_out lib blocks inp =
     (let out = (case find (\<lambda>b. is_resp lib (chars b)) blocks of
                   Some b \<Rightarrow> b | None \<Rightarrow> empty_str)
      in if chars out = [] then
           (let rest = filter (\<lambda>b. ident b \<noteq> ident inp) blocks
            in if rest \<noteq> [] then max_len (hd rest) (tl rest) else empty_str)
         else out)"

definition select_io :: "('v, 'e) pylib \<Rightarrow> strobj list \<Rightarrow> strobj \<times> strobj" where
  "select_io lib blocks =
     (let inp = select_inp lib blocks in (inp, select_out lib blocks inp))"

text \<open>
  The nested function \<^verbatim>\<open>norm\<close>. \<open>norm_try\<close> is the body of its \<^verbatim>\<open>try\<close>, which
  raises what the library raises; \<open>norm\<close> adds the handler \<^verbatim>\<open>except Exception: return s\<close>.
\<close>

definition norm_try :: "('v, 'e) pylib \<Rightarrow> pystr \<Rightarrow> 'e + pystr" where
  "norm_try lib s = (case json_loads lib s of Inl e \<Rightarrow> Inl e | Inr v \<Rightarrow> json_dumps lib v)"

definition norm :: "('v, 'e) pylib \<Rightarrow> pystr \<Rightarrow> 'e + pystr" where
  "norm lib s = (case norm_try lib s of Inl e \<Rightarrow> Inr s | Inr t \<Rightarrow> Inr t)"

definition pick_io :: "('v, 'e) pylib \<Rightarrow> strobj list \<Rightarrow> 'e + (pystr \<times> pystr)" where
  "pick_io lib blocks =
     (let (inp, out) = select_io lib blocks
      in case norm lib (chars inp) of
           Inl e \<Rightarrow> Inl e
         | Inr a \<Rightarrow> (case norm lib (chars out) of Inl e \<Rightarrow> Inl e | Inr b \<Rightarrow> Inr (a, b)))"

section \<open>Reading a document: \<^verbatim>\<open>read_pdf_text\<close>\<close>

text \<open>
  A document is given by what \<^verbatim>\<open>page.extract_text()\<close> returns for each of its pages:
  \<open>None\<close> or a string. \<^verbatim>\<open>s.replace(a, b)\<close> with one-character strings replaces every
  occurrence of the character. The five replacements map the full-width forms U+FF1A,
  U+FF08, U+FF09, U+FF0E and U+FF0D to the ASCII colon, parentheses, full stop and hyphen.
\<close>

definition replace_char :: "codepoint \<Rightarrow> codepoint \<Rightarrow> pystr \<Rightarrow> pystr" where
  "replace_char a b s = map (\<lambda>c. if c = a then b else c) s"

fun join :: "pystr \<Rightarrow> pystr list \<Rightarrow> pystr" where
  "join sep [] = []"
| "join sep [x] = x"
| "join sep (x # y # ys) = x @ sep @ join sep (y # ys)"

fun page_lines :: "pystr option list \<Rightarrow> pystr list" where
  "page_lines [] = []"
| "page_lines (page # pages) =
     (let t = (case page of None \<Rightarrow> [] | Some s \<Rightarrow> s)
      in if t \<noteq> [] then
           strip (replace_char 65293 45 (replace_char 65294 46 (replace_char 65289 41
             (replace_char 65288 40 (replace_char 65306 58 t))))) # page_lines pages
         else page_lines pages)"

definition read_pdf_text :: "pystr option list \<Rightarrow> pystr" where
  "read_pdf_text pages = join [10] (page_lines pages)"

section \<open>Record assembly: \<^verbatim>\<open>main\<close>\<close>

record row =
  Index :: int
  FileName :: pystr
  URL :: pystr
  Method :: pystr
  Input :: pystr
  ResponseCode :: pystr
  Output :: pystr

text \<open>
  Every block returned by \<^verbatim>\<open>json_blocks_near\<close> is a string object of its own (the result
  of a slice and a \<^verbatim>\<open>strip\<close>, more than 50 characters long), so the blocks of one list have
  pairwise different identities: here, their positions in the list.
\<close>

definition new_objs :: "pystr list \<Rightarrow> strobj list" where
  "new_objs bs = map (\<lambda>(i, s). StrObj i s) (enumerate 0 bs)"

text \<open>Lines 122 and 123, with the default radius and block count.\<close>

definition url_blocks :: "pystr \<Rightarrow> pystr \<Rightarrow> pystr list" where
  "url_blocks text url =
     (case re_search_escaped url text of
        Some k \<Rightarrow> json_blocks_near text (int k) 30000 12
      | None \<Rightarrow> [])"

text \<open>The loop over the URLs of one document; the state is \<^verbatim>\<open>rows\<close> and \<^verbatim>\<open>idx\<close>.\<close>

fun url_loop ::
  "('v, 'e) pylib \<Rightarrow> pystr \<Rightarrow> pystr \<Rightarrow> pystr list \<Rightarrow> row list \<times> int \<Rightarrow> 'e + (row list \<times> int)"
where
  "url_loop lib name text [] (rows, idx) = Inr (rows, idx)"
| "url_loop lib name text (url # urls) (rows, idx) =
     (case pick_io lib (new_objs (url_blocks text url)) of
        Inl e \<Rightarrow> Inl e
      | Inr (inp, out) \<Rightarrow>
          url_loop lib name text urls
            (rows @ [\<lparr>Index = idx, FileName = name, URL = url, Method = ustr ''POST'',
                      Input = inp, ResponseCode = ustr ''200'', Output = out\<rparr>],
             idx + 1))"

text \<open>The body of the loop over the documents, lines 113 to 134.\<close>

definition doc_step ::
  "('v, 'e) pylib \<Rightarrow> pystr \<times> pystr option list \<Rightarrow> row list \<times> int \<Rightarrow> 'e + (row list \<times> int)"
where
  "doc_step lib pdf st =
     (let name = fst pdf; text = read_pdf_text (snd pdf); rows = fst st; idx = snd st
      in if strip text = [] then
           Inr (rows @ [\<lparr>Index = idx, FileName = name, URL = [], Method = ustr ''POST'',
                         Input = [], ResponseCode = ustr ''200'', Output = []\<rparr>],
                idx + 1)
         else url_loop lib name text (find_urls text) (rows, idx))"

fun doc_loop ::
  "('v, 'e) pylib \<Rightarrow> (pystr \<times> pystr option list) list \<Rightarrow> row list \<times> int \<Rightarrow> 'e + (row list \<times> int)"
where
  "doc_loop lib [] st = Inr st"
| "doc_loop lib (pdf # pdfs) st =
     (case doc_step lib pdf st of Inl e \<Rightarrow> Inl e | Inr st' \<Rightarrow> doc_loop lib pdfs st')"

text \<open>
  \<^verbatim>\<open>main\<close> up to the rows handed to the spreadsheet writer. \<open>files\<close> are the PDF files of
  the input directory, each with its name and pages, in the order \<^verbatim>\<open>glob\<close> yields them;
  \<^verbatim>\<open>sorted\<close> orders the (POSIX) paths of one directory by file name, code point by code
  point.
\<close>

definition main_rows ::
  "('v, 'e) pylib \<Rightarrow> (pystr \<times> pystr option list) list \<Rightarrow> 'e + row list" where
  "main_rows lib files =
     (case doc_loop lib (sort_key fst files) ([], 1) of
        Inl e \<Rightarrow> Inl e
      | Inr st \<Rightarrow> Inr (fst st))"

section \<open>Notions of the specification\<close>

text \<open>
  First-occurrence deduplication, as the specification words it: an element is kept where
  it first occurs and is not added again.
\<close>

fun keep_first :: "'a list \<Rightarrow> 'a list" where
  "keep_first [] = []"
| "keep_first (x # xs) = x # filter (\<lambda>y. y \<noteq> x) (keep_first xs)"

text \<open>
  An endpoint declaration of path \<open>u\<close> in a text: \<^verbatim>\<open>POST\<close>, white space, then \<open>u\<close>, which
  begins with a slash, has no white space and is followed by white space or the end.
\<close>

definition declared :: "pystr \<Rightarrow> pystr \<Rightarrow> bool" where
  "declared text u \<longleftrightarrow>
     (\<exists>a ws b. text = a @ ustr ''POST'' @ ws @ u @ b \<and> ws \<noteq> [] \<and> list_all isspace ws \<and>
        length u \<ge> 2 \<and> hd u = of_char CHR ''/'' \<and> list_all nonspace u \<and>
        (b = [] \<or> isspace (hd b)))"

text \<open>
  The balanced-brace spans of a window, as the specification words the scan: from the
  next unconsumed opening brace to the brace where the depth returns to zero, resuming
  after it, until no brace is left or one is never closed. Neither the length threshold
  nor the block limit takes part.
\<close>

function found_spans :: "pystr \<Rightarrow> nat \<Rightarrow> pystr list" where
  "found_spans span i =
     (case find_char lbrace span i of
        None \<Rightarrow> []
      | Some p \<Rightarrow>
          (case close_scan (drop p span) p 0 of
             None \<Rightarrow> []
           | Some j \<Rightarrow> strip (take (Suc j - p) (drop p span)) # found_spans span (Suc j)))"
  by pat_completeness auto
termination
proof (relation "measure (\<lambda>(span, i). Suc (length span) - i)", goal_cases)
  case 1
  show ?case by simp
next
  case (2 span i p j)
  have scan: "close_scan s q d = Some k \<Longrightarrow> q \<le> k \<and> k < q + length s" for s q d k
    by (induction s q d rule: close_scan.induct) (fastforce split: if_splits)+
  from 2 have "i \<le> p"
    by (auto simp: find_char_def Let_def split: if_splits)
  moreover from 2 scan [of "drop p span" p 0 j] have "p \<le> j" "j < p + length (drop p span)"
    by simp_all
  ultimately show ?case by simp
qed

text \<open>The window of \<^verbatim>\<open>json_blocks_near\<close>: the text from \<open>center - radius\<close> to
  \<open>center + radius\<close>, clamped to the text.\<close>

definition window :: "pystr \<Rightarrow> int \<Rightarrow> int \<Rightarrow> pystr" where
  "window text center radius =
     py_slice text (max 0 (center - radius)) (min (int (length text)) (center + radius))"

text \<open>
  Texts with balanced braces: the empty text, a character other than a brace before a
  balanced text, and a balanced text in braces before a balanced text.
\<close>

inductive bal :: "pystr \<Rightarrow> bool" where
  bal_Nil: "bal []"
| bal_char: "bal (c # w)" if "bal w" "c \<noteq> lbrace" "c \<noteq> rbrace"
| bal_nest: "bal (lbrace # u @ rbrace # v)" if "bal u" "bal v"

text \<open>
  The records a document contributes, as the specification words them, by file name and
  URL: one placeholder with an empty URL when the text is blank, otherwise one record for
  each discovered endpoint, in discovery order.
\<close>

definition doc_entries :: "pystr \<times> pystr option list \<Rightarrow> (pystr \<times> pystr) list" where
  "doc_entries pdf =
     (if strip (read_pdf_text (snd pdf)) = [] then [(fst pdf, [])]
      else map (\<lambda>u. (fst pdf, u)) (find_urls (read_pdf_text (snd pdf))))"

section \<open>A small library instance\<close>

text \<open>
  For evaluating the program on concrete ASCII inputs: on ASCII text \<^verbatim>\<open>str.lower\<close> maps
  \<^verbatim>\<open>A\<close>..\<^verbatim>\<open>Z\<close> to \<^verbatim>\<open>a\<close>..\<^verbatim>\<open>z\<close> and leaves every other character unchanged. The JSON
  functions of \<open>tiny_lib\<close> know a single value, the empty object: a text parses when it
  is \<^verbatim>\<open>{}\<close> between white space, and the value is written \<^verbatim>\<open>{}\<close>, as by
  \<^verbatim>\<open>json.dumps\<close>; every other text is rejected.
\<close>

definition ascii_lower :: "pystr \<Rightarrow> pystr" where
  "ascii_lower s = map (\<lambda>c. if 65 \<le> c \<and> c \<le> 90 then c + 32 else c) s"

definition tiny_lib :: "(unit, unit) pylib" where
  "tiny_lib = \<lparr>str_lower = ascii_lower,
               json_loads = (\<lambda>s. if strip s = ustr ''{}'' then Inr () else Inl ()),
               json_dumps = (\<lambda>v. Inr (ustr ''{}''))\<rparr>"

section \<open>Example texts\<close>

text \<open>Two blocks of 50 and of 51 characters, and a text with these and \<^verbatim>\<open>{}\<close>.\<close>

definition block50 :: pystr where
  "block50 = ustr ''{\"k\":\"xxxxxxxxxxxxxxxxxxxxxxxxxxxxxxxxxxxxxxxxxx\"}''"

definition block51 :: pystr where
  "block51 = ustr ''{\"k\":\"xxxxxxxxxxxxxxxxxxxxxxxxxxxxxxxxxxxxxxxxxxx\"}''"

definition filter_text :: pystr where
  "filter_text = ustr ''a {} b '' @ block50 @ ustr '' c '' @ block51"

text \<open>The inside of a nested block of more than 50 characters.\<close>

definition nested_body :: pystr where
  "nested_body =
     ustr ''\"a\":'' @ lbrace # ustr ''\"b\":1'' @ rbrace #
     ustr '',\"note\":\"a block of more than fifty characters\"''"

text \<open>Two documents with two endpoints each, and a document without endpoint.\<close>

definition doc_a :: "pystr \<times> pystr option list" where
  "doc_a = (ustr ''a.pdf'', [Some (ustr ''POST /a1 x''), None, Some (ustr ''POST /a2'')])"

definition doc_b :: "pystr \<times> pystr option list" where
  "doc_b = (ustr ''b.pdf'', [Some (ustr ''POST /b1 POST /b2 POST /b1'')])"

definition doc_plain :: "pystr \<times> pystr option list" where
  "doc_plain = (ustr ''notes.pdf'', [Some (ustr ''no endpoint here'')])"

definition doc_empty :: "pystr \<times> pystr option list" where
  "doc_empty = (ustr ''empty.pdf'', [None, Some []])"

section \<open>Endpoint discovery\<close>

lemma keep_first_set: "set (keep_first xs) = set xs"
  by (induction xs) auto

lemma keep_first_distinct: "distinct (keep_first xs)"
  by (induction xs) (auto simp: keep_first_set)

lemma urls_loop_keep_first:
  "seen = set urls \<Longrightarrow>
   fst (urls_loop ms (urls, seen)) = urls @ filter (\<lambda>u. u \<notin> set urls) (keep_first ms)"
proof (induction ms arbitrary: urls seen)
  case Nil
  then show ?case by simp
next
  case (Cons u ms)
  show ?case
  proof (cases "u \<in> set urls")
    case True
    have "filter (\<lambda>y. y \<notin> set urls) (filter (\<lambda>y. y \<noteq> u) (keep_first ms))
        = filter (\<lambda>y. y \<notin> set urls) (keep_first ms)"
      using True by (auto intro: filter_cong)
    with True Cons show ?thesis by simp
  next
    case False
    have "filter (\<lambda>y. y \<notin> set (urls @ [u])) (keep_first ms)
        = filter (\<lambda>y. y \<notin> set urls) (filter (\<lambda>y. y \<noteq> u) (keep_first ms))"
      by (auto intro: filter_cong)
    with False Cons.prems Cons.IH [of "insert u seen" "urls @ [u]"] show ?thesis by simp
  qed
qed

lemma find_urls_keep_first: "find_urls text = keep_first (finditer text)"
  by (simp add: find_urls_def urls_loop_keep_first)

lemma match_post_decl:
  assumes "match_post t = Some (g, r)"
  shows "\<exists>ws. t = ustr ''POST'' @ ws @ g @ r \<and> ws \<noteq> [] \<and> list_all isspace ws \<and>
           length g \<ge> 2 \<and> hd g = of_char CHR ''/'' \<and> list_all nonspace g \<and>
           (r = [] \<or> isspace (hd r))"
proof -
  from assms obtain cs where t4: "take 4 t = ustr ''POST''"
    and ws: "takeWhile isspace (drop 4 t) \<noteq> []"
    and dw: "dropWhile isspace (drop 4 t) = of_char CHR ''/'' # cs"
    and g: "g = of_char CHR ''/'' # takeWhile nonspace cs"
    and ne: "takeWhile nonspace cs \<noteq> []"
    and r: "r = dropWhile nonspace cs"
    by (auto simp: match_post_def Let_def split: if_splits list.splits)
  let ?ws = "takeWhile isspace (drop 4 t)"
  have "t = take 4 t @ drop 4 t" by simp
  also have "drop 4 t = ?ws @ dropWhile isspace (drop 4 t)" by simp
  also have "dropWhile isspace (drop 4 t) = g @ r"
    unfolding dw g r by simp
  finally have eq: "t = ustr ''POST'' @ ?ws @ g @ r"
    unfolding t4 .
  have sl: "nonspace (of_char CHR ''/'')"
    by (simp add: nonspace_def isspace_def)
  have "list_all isspace ?ws"
    by (simp add: list_all_iff) (meson set_takeWhileD)
  moreover have "list_all nonspace g"
    unfolding g using sl by (simp add: list_all_iff) (meson set_takeWhileD)
  moreover have "length g \<ge> 2"
    unfolding g using ne by (cases "takeWhile nonspace cs") simp_all
  moreover have "r = [] \<or> isspace (hd r)"
    unfolding r using hd_dropWhile [of nonspace cs] by (auto simp: nonspace_def)
  ultimately show ?thesis using eq ws g by auto
qed

lemma finditer_declared: "g \<in> set (finditer t) \<Longrightarrow> declared t g"
proof (induction t rule: finditer.induct)
  case 1
  then show ?case by simp
next
  case (2 c cs)
  show ?case
  proof (cases "match_post (c # cs)")
    case None
    with 2 have "declared cs g" by simp
    then obtain a ws b where "cs = a @ ustr ''POST'' @ ws @ g @ b" and rest: "ws \<noteq> []" "list_all isspace ws"
      "length g \<ge> 2" "hd g = of_char CHR ''/''" "list_all nonspace g" "b = [] \<or> isspace (hd b)"
      unfolding declared_def by blast
    then have "c # cs = (c # a) @ ustr ''POST'' @ ws @ g @ b" by simp
    with rest show ?thesis unfolding declared_def by blast
  next
    case (Some gr)
    obtain g' r where gr: "gr = (g', r)" by (cases gr)
    from match_post_decl [OF Some [unfolded gr]] obtain ws where
      eq: "c # cs = ustr ''POST'' @ ws @ g' @ r" and rest: "ws \<noteq> []" "list_all isspace ws"
      "length g' \<ge> 2" "hd g' = of_char CHR ''/''" "list_all nonspace g'" "r = [] \<or> isspace (hd r)"
      by blast
    from 2 Some gr have "g = g' \<or> g \<in> set (finditer r)" by simp
    then show ?thesis
    proof
      assume "g = g'"
      with eq have "c # cs = [] @ ustr ''POST'' @ ws @ g @ r" by simp
      with rest \<open>g = g'\<close> show ?thesis unfolding declared_def by blast
    next
      assume "g \<in> set (finditer r)"
      with 2 Some gr have "declared r g" by simp
      then obtain a ws' b where "r = a @ ustr ''POST'' @ ws' @ g @ b" and rest': "ws' \<noteq> []" "list_all isspace ws'"
        "length g \<ge> 2" "hd g = of_char CHR ''/''" "list_all nonspace g" "b = [] \<or> isspace (hd b)"
        unfolding declared_def by blast
      with eq have "c # cs = (ustr ''POST'' @ ws @ g' @ a) @ ustr ''POST'' @ ws' @ g @ b" by simp
      with rest' show ?thesis unfolding declared_def by blast
    qed
  qed
qed

lemma search_from_found:
  "\<exists>k. search_from u (a @ u @ b) n = Some k \<and> n \<le> k \<and> k \<le> n + length a"
proof (induction a arbitrary: n)
  case Nil
  have "prefix u (u @ b)" by simp
  then show ?case by (cases "u @ b") auto
next
  case (Cons c a)
  from Cons [of "Suc n"] show ?case by (auto simp: le_Suc_eq)
qed

lemma search_from_sound:
  "search_from u t n = Some k \<Longrightarrow> n \<le> k \<and> prefix u (drop (k - n) t)"
proof (induction t arbitrary: n)
  case Nil
  then show ?case by (auto split: if_splits)
next
  case (Cons c cs)
  show ?case
  proof (cases "prefix u (c # cs)")
    case True
    with Cons.prems show ?thesis by simp
  next
    case False
    with Cons.prems have s: "search_from u cs (Suc n) = Some k" by simp
    from Cons.IH [OF s] have "Suc n \<le> k" "prefix u (drop (k - Suc n) cs)" by auto
    moreover from this have "k - n = Suc (k - Suc n)" by simp
    ultimately show ?thesis by simp
  qed
qed

text \<open>
  Claim C5. For every text, \<^verbatim>\<open>find_urls\<close> returns the paths matched by the pattern
  \<^verbatim>\<open>POST\s+(/\S+)\<close>, each kept where it first occurs and never added again: the result is
  the first-occurrence deduplication of the matches, it has no repetition, and every
  path in it is declared in the text (\<^verbatim>\<open>POST\<close>, white space, a maximal run without white
  space that begins with a slash). A text whose matches are \<^verbatim>\<open>/a\<close>, \<^verbatim>\<open>/b\<close>, \<^verbatim>\<open>/a\<close>
  in that order yields \<^verbatim>\<open>["/a", "/b"]\<close>; the text \<^verbatim>\<open>POST /a POST /b POST /a\<close> is one.
\<close>

theorem find_urls_first_occurrence_order:
  "find_urls text = keep_first (finditer text) \<and>
   distinct (find_urls text) \<and>
   list_all (declared text) (find_urls text) \<and>
   (\<forall>a b. finditer text = [a, b, a] \<and> a \<noteq> b \<longrightarrow> find_urls text = [a, b]) \<and>
   find_urls (ustr ''POST /a POST /b POST /a'') = [ustr ''/a'', ustr ''/b'']"
proof -
  have "find_urls text = [a, b]" if "finditer text = [a, b, a]" "a \<noteq> b" for a b
    using that by (simp add: find_urls_keep_first)
  moreover
  have "list_all (declared text) (find_urls text)"
    by (simp add: list_all_iff find_urls_keep_first keep_first_set finditer_declared)
  moreover have "find_urls (ustr ''POST /a POST /b POST /a'') = [ustr ''/a'', ustr ''/b'']"
    by (simp add: find_urls_def ustr_def match_post_def isspace_def nonspace_def)
  ultimately show ?thesis
    by (simp add: find_urls_keep_first keep_first_distinct)
qed

theorem find_urls_first_occurrence_order_witness:
  "finditer (ustr ''POST /x  POST /y POST /x'') = [ustr ''/x'', ustr ''/y'', ustr ''/x''] \<and>
   ustr ''/x'' \<noteq> ustr ''/y'' \<and>
   find_urls (ustr ''POST /x  POST /y POST /x'') = [ustr ''/x'', ustr ''/y''] \<and>
   distinct (find_urls (ustr ''POST /x  POST /y POST /x'')) \<and>
   list_all (declared (ustr ''POST /x  POST /y POST /x''))
     (find_urls (ustr ''POST /x  POST /y POST /x''))"
proof -
  have m: "finditer (ustr ''POST /x  POST /y POST /x'')
             = [ustr ''/x'', ustr ''/y'', ustr ''/x'']"
    by (simp add: ustr_def match_post_def isspace_def nonspace_def)
  have n: "ustr ''/x'' \<noteq> ustr ''/y''"
    by (simp add: ustr_def)
  note all = find_urls_first_occurrence_order [of "ustr ''POST /x  POST /y POST /x''"]
  note d = all [THEN conjunct2, THEN conjunct1]
  note l = all [THEN conjunct2, THEN conjunct2, THEN conjunct1]
  note f = all [THEN conjunct2, THEN conjunct2, THEN conjunct2, THEN conjunct1]
  from m n have "finditer (ustr ''POST /x  POST /y POST /x'') = [ustr ''/x'', ustr ''/y'', ustr ''/x'']
      \<and> ustr ''/x'' \<noteq> ustr ''/y''"
    by (rule conjI)
  from f [rule_format, OF this]
  have u: "find_urls (ustr ''POST /x  POST /y POST /x'') = [ustr ''/x'', ustr ''/y'']" .
  show ?thesis
    by (intro conjI m n u d l)
qed

text \<open>
  Claim C10. For every path that \<^verbatim>\<open>find_urls\<close> returns on a text, the search of line 122
  for the first literal occurrence of the path in the same text finds a position, at
  which the path stands in the text; so line 123 always calls \<^verbatim>\<open>json_blocks_near\<close>
  and the branch with the empty block list is never taken.
\<close>

theorem anchor_search_succeeds:
  assumes "u \<in> set (find_urls text)"
  shows "\<exists>k. re_search_escaped u text = Some k \<and>
             k + length u \<le> length text \<and> take (length u) (drop k text) = u \<and>
             url_blocks text u = json_blocks_near text (int k) 30000 12"
proof -
  from assms have "declared text u"
    by (simp add: find_urls_keep_first keep_first_set finditer_declared)
  then obtain a ws b where "text = (a @ ustr ''POST'' @ ws) @ u @ b"
    unfolding declared_def by auto
  with search_from_found [of u "a @ ustr ''POST'' @ ws" b 0]
  obtain k where k: "re_search_escaped u text = Some k"
    unfolding re_search_escaped_def by auto
  with search_from_sound [of u "text" 0 k] have p: "prefix u (drop k text)"
    unfolding re_search_escaped_def by simp
  then obtain zs where zs: "drop k text = u @ zs"
    by (auto simp: prefix_def)
  then have "take (length u) (drop k text) = u"
    by simp
  moreover have "k + length u \<le> length text"
  proof -
    have "length u \<le> length (drop k text)" using zs by simp
    moreover have "u \<noteq> []" using \<open>declared text u\<close> unfolding declared_def by auto
    ultimately show ?thesis by (cases u) auto
  qed
  ultimately show ?thesis
    using k by (simp add: url_blocks_def)
qed

theorem anchor_search_succeeds_witness:
  "ustr ''/a'' \<in> set (find_urls (ustr ''see /a POST /a x'')) \<and>
   re_search_escaped (ustr ''/a'') (ustr ''see /a POST /a x'') = Some 4 \<and>
   url_blocks (ustr ''see /a POST /a x'') (ustr ''/a'')
     = json_blocks_near (ustr ''see /a POST /a x'') 4 30000 12"
proof -
  have m: "ustr ''/a'' \<in> set (find_urls (ustr ''see /a POST /a x''))"
    by (simp add: find_urls_def ustr_def match_post_def isspace_def nonspace_def)
  have s: "re_search_escaped (ustr ''/a'') (ustr ''see /a POST /a x'') = Some 4"
    by (simp add: re_search_escaped_def ustr_def)
  from anchor_search_succeeds [OF m] s m show ?thesis by auto
qed

section \<open>Role classification\<close>

lemma find_holds: "find P xs = Some x \<Longrightarrow> P x"
  by (induction xs) (auto split: if_splits)

text \<open>
  Claim C4. A block whose lower-cased text contains a response keyword and a request
  keyword is response-like and is not request-like, so the scan for the first
  request-like block never returns it: the response classification takes precedence.
\<close>

theorem response_takes_precedence:
  assumes "list_ex (\<lambda>k. str_in k (str_lower lib b)) resp_keywords"
    and "list_ex (\<lambda>k. str_in k (str_lower lib b)) req_keywords"
  shows "is_resp lib b \<and> \<not> is_req lib b \<and>
         find (\<lambda>x. is_req lib (chars x)) blocks \<noteq> Some (StrObj i b)"
proof -
  from assms(1) have r: "is_resp lib b" by (simp add: is_resp_def)
  then have n: "\<not> is_req lib b" by (simp add: is_req_def)
  have "find (\<lambda>x. is_req lib (chars x)) blocks \<noteq> Some (StrObj i b)"
  proof
    assume "find (\<lambda>x. is_req lib (chars x)) blocks = Some (StrObj i b)"
    from find_holds [OF this] n show False by simp
  qed
  with r n show ?thesis by simp
qed

theorem response_takes_precedence_witness:
  "list_ex (\<lambda>k. str_in k (str_lower tiny_lib (ustr ''{\"rspCode\":\"0\",\"custId\":\"1\"}'')))
     resp_keywords \<and>
   list_ex (\<lambda>k. str_in k (str_lower tiny_lib (ustr ''{\"rspCode\":\"0\",\"custId\":\"1\"}'')))
     req_keywords \<and>
   is_resp tiny_lib (ustr ''{\"rspCode\":\"0\",\"custId\":\"1\"}'') \<and>
   \<not> is_req tiny_lib (ustr ''{\"rspCode\":\"0\",\"custId\":\"1\"}'')"
proof -
  have a: "list_ex (\<lambda>k. str_in k (str_lower tiny_lib (ustr ''{\"rspCode\":\"0\",\"custId\":\"1\"}'')))
             resp_keywords"
    by (simp add: tiny_lib_def ascii_lower_def ustr_def resp_keywords_def)
  have b: "list_ex (\<lambda>k. str_in k (str_lower tiny_lib (ustr ''{\"rspCode\":\"0\",\"custId\":\"1\"}'')))
             req_keywords"
    by (simp add: tiny_lib_def ascii_lower_def ustr_def req_keywords_def)
  from response_takes_precedence [OF a b] a b show ?thesis by blast
qed

lemma find_in_set: "find P xs = Some x \<Longrightarrow> x \<in> set xs"
  by (induction xs) (auto split: if_splits)

lemma max_len_in_set: "max_len m bs \<in> set (m # bs)"
  by (induction bs arbitrary: m) auto

lemma select_inp_in_blocks: "blocks \<noteq> [] \<Longrightarrow> select_inp lib blocks \<in> set blocks"
proof -
  assume ne: "blocks \<noteq> []"
  then have "max_len (hd blocks) (tl blocks) \<in> set blocks"
    using max_len_in_set [of "hd blocks" "tl blocks"] by simp
  then show ?thesis
    using ne
    by (auto simp: select_inp_def Let_def empty_str_def dest: find_in_set split: option.splits)
qed

text \<open>
  Where the two selections can coincide. On blocks with pairwise different identities,
  a non-empty input and output are the same block only when no non-empty block was
  request-like, so that the input is the longest of all blocks (line 93), and that block
  is the first response-like one, which line 90 has chosen as output. In every other
  case the two selected blocks are different blocks of the list.
\<close>

lemma same_block_only_by_input_fallback:
  assumes d: "distinct (map ident blocks)"
    and sel: "select_io lib blocks = (inp, out)"
    and ne: "chars inp \<noteq> []" "chars out \<noteq> []"
    and same: "ident inp = ident out"
  shows "inp = max_len (hd blocks) (tl blocks) \<and>
         find (\<lambda>b. is_resp lib (chars b)) blocks = Some out \<and>
         \<not> is_req lib (chars inp)"
proof -
  from sel have inp: "inp = select_inp lib blocks" and out: "out = select_out lib blocks inp"
    by (auto simp: select_io_def Let_def)
  have blocks: "blocks \<noteq> []"
    using ne(1) inp by (auto simp: select_inp_def empty_str_def)
  then have mem: "inp \<in> set blocks"
    unfolding inp by (rule select_inp_in_blocks)
  have key: "find (\<lambda>b. is_resp lib (chars b)) blocks = Some out"
  proof (rule ccontr)
    assume no: "find (\<lambda>b. is_resp lib (chars b)) blocks \<noteq> Some out"
    let ?rest = "filter (\<lambda>b. ident b \<noteq> ident inp) blocks"
    from no ne(2) out have o: "?rest \<noteq> []" "out = max_len (hd ?rest) (tl ?rest)"
      by (auto simp: select_out_def Let_def empty_str_def split: option.splits if_splits)
    from max_len_in_set [of "hd ?rest" "tl ?rest"] o have "out \<in> set ?rest"
      by simp
    then have "ident out \<noteq> ident inp" by simp
    with same show False by simp
  qed
  then have r: "is_resp lib (chars out)" and omem: "out \<in> set blocks"
    by (auto dest: find_holds find_in_set)
  from d mem omem same have eq: "inp = out"
    by (auto simp: distinct_map inj_on_def)
  from r eq have nreq: "\<not> is_req lib (chars inp)"
    by (simp add: is_req_def)
  have "inp = max_len (hd blocks) (tl blocks)"
  proof (cases "find (\<lambda>b. is_req lib (chars b)) blocks")
    case None
    with blocks show ?thesis by (simp add: inp select_inp_def empty_str_def)
  next
    case (Some b)
    show ?thesis
    proof (cases "chars b = []")
      case True
      with Some blocks show ?thesis by (simp add: inp select_inp_def)
    next
      case False
      with Some have "inp = b" by (simp add: inp select_inp_def)
      with find_holds [OF Some] nreq show ?thesis by simp
    qed
  qed
  with key nreq show ?thesis by simp
qed

text \<open>
  Claim C3, evaluated where it fails. The document text is
  \<^verbatim>\<open>POST /v1/q {"rspCode":"0000","rspMsg":"success","txnId":"20240101000001"}\<close>. Its one
  block is response-like and not request-like. No block is request-like, so line 93
  takes the longest of all blocks as input, which is this block; line 90 has taken the
  same block as output. The selected input and output are one and the same block.
\<close>

theorem input_fallback_takes_output_block:
  "url_blocks
     (ustr ''POST /v1/q {\"rspCode\":\"0000\",\"rspMsg\":\"success\",\"txnId\":\"20240101000001\"}'')
     (ustr ''/v1/q'')
     = [ustr ''{\"rspCode\":\"0000\",\"rspMsg\":\"success\",\"txnId\":\"20240101000001\"}''] \<and>
   select_io tiny_lib
     (new_objs [ustr ''{\"rspCode\":\"0000\",\"rspMsg\":\"success\",\"txnId\":\"20240101000001\"}''])
     = (StrObj 0 (ustr ''{\"rspCode\":\"0000\",\"rspMsg\":\"success\",\"txnId\":\"20240101000001\"}''),
        StrObj 0 (ustr ''{\"rspCode\":\"0000\",\"rspMsg\":\"success\",\"txnId\":\"20240101000001\"}''))"
proof -
  have "url_blocks
     (ustr ''POST /v1/q {\"rspCode\":\"0000\",\"rspMsg\":\"success\",\"txnId\":\"20240101000001\"}'')
     (ustr ''/v1/q'')
     = [ustr ''{\"rspCode\":\"0000\",\"rspMsg\":\"success\",\"txnId\":\"20240101000001\"}'']"
    by (simp add: url_blocks_def re_search_escaped_def json_blocks_near_def py_slice_def
        slice_bound_def find_char_def lbrace_def rbrace_def strip_def isspace_def ustr_def
        Let_def)
  moreover have "select_io tiny_lib
     (new_objs [ustr ''{\"rspCode\":\"0000\",\"rspMsg\":\"success\",\"txnId\":\"20240101000001\"}''])
     = (StrObj 0 (ustr ''{\"rspCode\":\"0000\",\"rspMsg\":\"success\",\"txnId\":\"20240101000001\"}''),
        StrObj 0 (ustr ''{\"rspCode\":\"0000\",\"rspMsg\":\"success\",\"txnId\":\"20240101000001\"}''))"
    by (simp add: new_objs_def select_io_def select_inp_def select_out_def is_req_def
        is_resp_def tiny_lib_def ascii_lower_def ustr_def resp_keywords_def req_keywords_def
        empty_str_def)
  ultimately show ?thesis by (rule conjI)
qed

section \<open>Normalisation\<close>

text \<open>
  Claim C9. When \<^verbatim>\<open>json.loads\<close> raises on a text, \<^verbatim>\<open>norm\<close> returns that text unchanged;
  and on every text \<^verbatim>\<open>norm\<close> returns a string and raises nothing, whatever the library
  functions do.
\<close>

theorem norm_returns_input_on_parse_failure:
  "(json_loads lib s = Inl e \<longrightarrow> norm lib s = Inr s) \<and> (\<exists>t. norm lib s' = Inr t)"
  by (auto simp: norm_def norm_try_def split: sum.splits)

theorem norm_returns_input_on_parse_failure_witness:
  "json_loads tiny_lib (ustr ''{\"a\": '') = Inl () \<and>
   norm tiny_lib (ustr ''{\"a\": '') = Inr (ustr ''{\"a\": '')"
proof -
  have f: "json_loads tiny_lib (ustr ''{\"a\": '') = Inl ()"
    by (simp add: tiny_lib_def ustr_def strip_def isspace_def)
  with norm_returns_input_on_parse_failure [of tiny_lib "ustr ''{\"a\": ''" "()"]
  show ?thesis by blast
qed

text \<open>
  Claim C8. \<^verbatim>\<open>norm\<close> is idempotent: normalising the result of a normalisation returns it
  unchanged. The library is assumed to serialise stably: when a text written by
  \<^verbatim>\<open>json.dumps\<close> is parsed again, the value obtained is written as the same text.
\<close>

theorem norm_idempotent:
  assumes "\<forall>v t v'. json_dumps lib v = Inr t \<and> json_loads lib t = Inr v'
             \<longrightarrow> json_dumps lib v' = Inr t"
  shows "\<exists>t. norm lib s = Inr t \<and> norm lib t = Inr t"
proof (cases "norm_try lib s")
  case (Inl e)
  then show ?thesis by (simp add: norm_def)
next
  case (Inr t)
  then obtain v where v: "json_loads lib s = Inr v" "json_dumps lib v = Inr t"
    by (auto simp: norm_try_def split: sum.splits)
  have "norm lib t = Inr t"
  proof (cases "json_loads lib t")
    case (Inl e)
    then show ?thesis by (simp add: norm_def norm_try_def)
  next
    case (Inr v')
    with assms v have "json_dumps lib v' = Inr t" by blast
    with Inr show ?thesis by (simp add: norm_def norm_try_def)
  qed
  with Inr show ?thesis by (simp add: norm_def)
qed

theorem norm_idempotent_witness:
  "norm tiny_lib (ustr '' {} '') = Inr (ustr ''{}'') \<and>
   norm tiny_lib (ustr ''{}'') = Inr (ustr ''{}'')"
proof -
  have h: "\<forall>v t v'. json_dumps tiny_lib v = Inr t \<and> json_loads tiny_lib t = Inr v'
             \<longrightarrow> json_dumps tiny_lib v' = Inr t"
    by (simp add: tiny_lib_def)
  have n: "norm tiny_lib (ustr '' {} '') = Inr (ustr ''{}'')"
    by (simp add: norm_def norm_try_def tiny_lib_def ustr_def strip_def isspace_def)
  from norm_idempotent [OF h, of "ustr '' {} ''"] n h show ?thesis by auto
qed

section \<open>Block extraction\<close>

declare blocks_loop.simps [simp del] found_spans.simps [simp del]

lemma blocks_loop_found_spans:
  "blocks_loop span m i out
     = out @ take (nat m - length out) (filter (\<lambda>raw. 50 < length raw) (found_spans span i))"
proof (induction span m i out rule: blocks_loop.induct)
  case (1 span m i out)
  show ?case
  proof (cases "int (length out) < m")
    case False
    then have "nat m - length out = 0" by simp
    with False show ?thesis by (subst blocks_loop.simps) simp
  next
    case lt: True
    show ?thesis
    proof (cases "find_char lbrace span i")
      case None
      with lt show ?thesis
        by (subst blocks_loop.simps, subst found_spans.simps) simp
    next
      case (Some p)
      show ?thesis
      proof (cases "close_scan (drop p span) p 0")
        case None
        with lt Some show ?thesis
          by (subst blocks_loop.simps, subst found_spans.simps) simp
      next
        case j: (Some j)
        let ?raw = "strip (take (Suc j - p) (drop p span))"
        let ?out = "if 50 < length ?raw then out @ [?raw] else out"
        have step: "blocks_loop span m i out = blocks_loop span m (Suc j) ?out"
          using lt Some j by (subst blocks_loop.simps) simp
        have fs: "found_spans span i = ?raw # found_spans span (Suc j)"
          using Some j by (subst found_spans.simps) simp
        have ih: "blocks_loop span m (Suc j) ?out
            = ?out @ take (nat m - length ?out)
                (filter (\<lambda>raw. 50 < length raw) (found_spans span (Suc j)))"
          using "1.IH" [OF lt Some j] .
        from lt have pos: "nat m - length out = Suc (nat m - Suc (length out))" by linarith
        show ?thesis
          unfolding step ih fs using pos by simp
      qed
    qed
  qed
qed

lemma json_blocks_near_found_spans:
  "json_blocks_near text center radius m
     = take (nat m) (filter (\<lambda>raw. 50 < length raw) (found_spans (window text center radius) 0))"
  by (simp add: json_blocks_near_def window_def Let_def blocks_loop_found_spans)

lemma braces_differ: "lbrace \<noteq> rbrace"
  by (simp add: lbrace_def rbrace_def)

lemma close_scan_bal:
  "bal w \<Longrightarrow> 0 < d \<Longrightarrow> close_scan (w @ r) j d = close_scan r (j + length w) d"
proof (induction arbitrary: j d r rule: bal.induct)
  case bal_Nil
  show ?case by simp
next
  case (bal_char w c)
  then show ?case by simp
next
  case (bal_nest u v)
  have "close_scan ((lbrace # u @ rbrace # v) @ r) j d
      = close_scan (u @ (rbrace # v @ r)) (Suc j) (d + 1)"
    by simp
  also have "\<dots> = close_scan (rbrace # v @ r) (Suc j + length u) (d + 1)"
    using bal_nest.prems by (intro bal_nest.IH(1)) simp
  also have "\<dots> = close_scan (v @ r) (Suc (Suc j + length u)) d"
    using bal_nest.prems braces_differ by auto
  also have "\<dots> = close_scan r (Suc (Suc j + length u) + length v) d"
    using bal_nest.prems by (intro bal_nest.IH(2))
  finally show ?case by (simp add: add.assoc)
qed

lemma close_scan_block:
  assumes "bal body"
  shows "close_scan (lbrace # body @ rbrace # suf) p 0 = Some (Suc p + length body)"
proof -
  have "close_scan (lbrace # body @ rbrace # suf) p 0
      = close_scan (body @ (rbrace # suf)) (Suc p) 1"
    by simp
  also have "\<dots> = close_scan (rbrace # suf) (Suc p + length body) 1"
    using assms by (intro close_scan_bal) simp_all
  also have "\<dots> = Some (Suc p + length body)"
    using braces_differ by auto
  finally show ?thesis .
qed

lemma find_char_first:
  "ch \<notin> set pre \<Longrightarrow> find_char ch (pre @ ch # rest) 0 = Some (length pre)"
proof -
  assume a: "ch \<notin> set pre"
  then have "takeWhile (\<lambda>c. c \<noteq> ch) (pre @ ch # rest) = pre"
    by (subst takeWhile_append2) auto
  then show ?thesis by (simp add: find_char_def)
qed

lemma find_char_none:
  "ch \<notin> set (drop i s) \<Longrightarrow> find_char ch s i = None"
  by (simp add: find_char_def)

lemma strip_block: "strip (lbrace # body @ [rbrace]) = lbrace # body @ [rbrace]"
  by (simp add: strip_def lbrace_def rbrace_def isspace_def)

lemma found_spans_single:
  assumes "lbrace \<notin> set pre" "lbrace \<notin> set suf" "bal body"
  shows "found_spans (pre @ lbrace # body @ rbrace # suf) 0 = [lbrace # body @ [rbrace]]"
proof -
  let ?span = "pre @ lbrace # body @ rbrace # suf"
  let ?p = "length pre"
  let ?j = "Suc ?p + length body"
  have f: "find_char lbrace ?span 0 = Some ?p"
    using assms(1) by (rule find_char_first)
  have c: "close_scan (drop ?p ?span) ?p 0 = Some ?j"
    using close_scan_block [OF assms(3)] by simp
  have r: "strip (take (Suc ?j - ?p) (drop ?p ?span)) = lbrace # body @ [rbrace]"
    using strip_block [of body] by simp
  have "drop (Suc ?j) ?span = suf" by simp
  then have n: "find_char lbrace ?span (Suc ?j) = None"
    using assms(2) by (intro find_char_none) simp
  have "found_spans ?span (Suc ?j) = []"
    using n by (subst found_spans.simps) simp
  then show ?thesis
    using f c r by (subst found_spans.simps) simp
qed

lemma window_whole:
  "center - radius \<le> 0 \<Longrightarrow> int (length text) \<le> center + radius \<Longrightarrow>
   window text center radius = text"
  by (simp add: window_def py_slice_def slice_bound_def max_def min_def)

lemma bal_plain: "lbrace \<notin> set w \<Longrightarrow> rbrace \<notin> set w \<Longrightarrow> bal w"
  by (induction w) (auto intro: bal.intros)

lemma bal_append: "bal u \<Longrightarrow> bal v \<Longrightarrow> bal (u @ v)"
proof (induction rule: bal.induct)
  case bal_Nil
  then show ?case by simp
next
  case (bal_char w c)
  then show ?case by (simp add: bal.bal_char)
next
  case (bal_nest u w)
  then have "bal (lbrace # u @ rbrace # (w @ v))" by (intro bal.bal_nest) simp_all
  then show ?case by simp
qed

lemma bal_nested_body: "bal nested_body"
proof -
  have p: "bal (ustr ''\"a\":'')" "bal (ustr ''\"b\":1'')"
    "bal (ustr '',\"note\":\"a block of more than fifty characters\"'')"
    by (rule bal_plain; simp add: ustr_def lbrace_def rbrace_def)+
  show ?thesis
    unfolding nested_body_def by (intro bal_append bal.bal_nest p)
qed


text \<open>
  Claim C6. The blocks \<^verbatim>\<open>json_blocks_near\<close> returns are the balanced-brace spans found in
  the window whose trimmed length exceeds 50, in order, up to the block limit. So every
  returned block is longer than 50 characters, \<^verbatim>\<open>{}\<close> is never returned, and as long as
  the limit is not exceeded a found span is returned exactly when its trimmed length is
  51 or more.
\<close>

theorem min_length_filter:
  "json_blocks_near text center radius max_blocks
     = take (nat max_blocks)
         (filter (\<lambda>raw. 50 < length raw) (found_spans (window text center radius) 0)) \<and>
   list_all (\<lambda>raw. 50 < length raw) (json_blocks_near text center radius max_blocks) \<and>
   ustr ''{}'' \<notin> set (json_blocks_near text center radius max_blocks) \<and>
   (length (filter (\<lambda>raw. 50 < length raw) (found_spans (window text center radius) 0))
      \<le> nat max_blocks \<longrightarrow>
    (\<forall>raw \<in> set (found_spans (window text center radius) 0).
       raw \<in> set (json_blocks_near text center radius max_blocks) \<longleftrightarrow> 50 < length raw))"
proof -
  let ?kept = "filter (\<lambda>raw. 50 < length raw) (found_spans (window text center radius) 0)"
  have eq: "json_blocks_near text center radius max_blocks = take (nat max_blocks) ?kept"
    by (rule json_blocks_near_found_spans)
  have all: "list_all (\<lambda>raw. 50 < length raw) (take (nat max_blocks) ?kept)"
    unfolding list_all_iff by (auto dest: in_set_takeD)
  have short: "length (ustr ''{}'') = 2"
    by (simp add: ustr_def)
  have no: "ustr ''{}'' \<notin> set (take (nat max_blocks) ?kept)"
    using all short unfolding list_all_iff by fastforce
  have "length ?kept \<le> nat max_blocks \<longrightarrow>
    (\<forall>raw \<in> set (found_spans (window text center radius) 0).
       raw \<in> set (take (nat max_blocks) ?kept) \<longleftrightarrow> 50 < length raw)"
    by auto
  with all no show ?thesis unfolding eq by blast
qed

theorem min_length_filter_witness:
  "found_spans (window filter_text 0 30000) 0 = [ustr ''{}'', block50, block51] \<and>
   length (ustr ''{}'') = 2 \<and> length block50 = 50 \<and> length block51 = 51 \<and>
   length (filter (\<lambda>raw. 50 < length raw) (found_spans (window filter_text 0 30000) 0))
     \<le> nat 12 \<and>
   json_blocks_near filter_text 0 30000 12 = [block51]"
proof -
  have fs: "found_spans (window filter_text 0 30000) 0 = [ustr ''{}'', block50, block51]"
    by (simp add: window_def py_slice_def slice_bound_def find_char_def lbrace_def rbrace_def
        strip_def isspace_def ustr_def found_spans.simps filter_text_def block50_def
        block51_def)
  have lens: "length (ustr ''{}'') = 2" "length block50 = 50" "length block51 = 51"
    by (simp_all add: block50_def block51_def ustr_def)
  from min_length_filter [of filter_text 0 30000 12]
  have "json_blocks_near filter_text 0 30000 12
     = take (nat 12)
         (filter (\<lambda>raw. 50 < length raw) (found_spans (window filter_text 0 30000) 0))"
    by (rule conjunct1)
  with fs lens show ?thesis by simp
qed

text \<open>
  Claim C2, as stated: for the text \<^verbatim>\<open>prefix {"a":{"b":1}} suffix\<close> the extractor returns
  no candidate, since the block has 13 characters and the minimum is more than 50.
\<close>

theorem nested_example_filtered_out:
  "json_blocks_near (ustr ''prefix {\"a\":{\"b\":1}} suffix'') 0 30000 12 = [] \<and>
   json_blocks_near (ustr ''prefix {\"a\":{\"b\":1}} suffix'') 0 30000 12
     \<noteq> [ustr ''{\"a\":{\"b\":1}}'']"
  by (simp add: json_blocks_near_def py_slice_def slice_bound_def find_char_def lbrace_def
      rbrace_def strip_def isspace_def ustr_def blocks_loop.simps)

text \<open>
  Claim C2, amended. For a text \<^verbatim>\<open>prefix B suffix\<close> inside the scan window, where prefix
  and suffix contain no opening brace and \<^verbatim>\<open>B\<close> is a block in braces with balanced,
  possibly nested, braces inside and more than 50 characters, the extractor returns
  exactly one candidate, equal to \<^verbatim>\<open>B\<close>: nested braces do not end the block early. The
  block \<^verbatim>\<open>{"a":{"b":1}}\<close> of the example is found whole by the scan as well (and then
  dropped for its length).
\<close>

theorem nested_block_returned_whole:
  assumes "lbrace \<notin> set pre" and "lbrace \<notin> set suf" and "bal body"
    and "50 < length (lbrace # body @ [rbrace])"
    and "center - radius \<le> 0"
    and "int (length (pre @ lbrace # body @ rbrace # suf)) \<le> center + radius"
    and "0 < max_blocks"
  shows "json_blocks_near (pre @ lbrace # body @ rbrace # suf) center radius max_blocks
           = [lbrace # body @ [rbrace]] \<and>
         found_spans (window (ustr ''prefix {\"a\":{\"b\":1}} suffix'') 0 30000) 0
           = [ustr ''{\"a\":{\"b\":1}}'']"
proof -
  have w: "window (pre @ lbrace # body @ rbrace # suf) center radius
             = pre @ lbrace # body @ rbrace # suf"
    using assms(5,6) by (rule window_whole)
  from assms(7) obtain n where n: "nat max_blocks = Suc n"
    by (cases "nat max_blocks") auto
  have "json_blocks_near (pre @ lbrace # body @ rbrace # suf) center radius max_blocks
           = [lbrace # body @ [rbrace]]"
    unfolding json_blocks_near_found_spans w found_spans_single [OF assms(1-3)] n
    using assms(4) by simp
  moreover have "found_spans (window (ustr ''prefix {\"a\":{\"b\":1}} suffix'') 0 30000) 0
           = [ustr ''{\"a\":{\"b\":1}}'']"
    by (simp add: window_def py_slice_def slice_bound_def find_char_def lbrace_def rbrace_def
        strip_def isspace_def ustr_def found_spans.simps)
  ultimately show ?thesis by (rule conjI)
qed

theorem nested_block_returned_whole_witness:
  "lbrace \<notin> set (ustr ''prefix '') \<and> lbrace \<notin> set (ustr '' suffix'') \<and> bal nested_body \<and>
   50 < length (lbrace # nested_body @ [rbrace]) \<and>
   (0::int) - 30000 \<le> 0 \<and>
   int (length (ustr ''prefix '' @ lbrace # nested_body @ rbrace # ustr '' suffix''))
     \<le> 0 + 30000 \<and>
   (0::int) < 12 \<and>
   json_blocks_near (ustr ''prefix '' @ lbrace # nested_body @ rbrace # ustr '' suffix'')
     0 30000 12 = [lbrace # nested_body @ [rbrace]]"
proof -
  have a: "lbrace \<notin> set (ustr ''prefix '')" "lbrace \<notin> set (ustr '' suffix'')"
    by (simp_all add: ustr_def lbrace_def)
  have b: "bal nested_body" by (rule bal_nested_body)
  have c: "50 < length (lbrace # nested_body @ [rbrace])"
    by (simp add: nested_body_def ustr_def)
  have d: "(0::int) - 30000 \<le> 0" "(0::int) < 12" by simp_all
  have e: "int (length (ustr ''prefix '' @ lbrace # nested_body @ rbrace # ustr '' suffix''))
     \<le> 0 + 30000"
    by (simp add: nested_body_def ustr_def)
  from nested_block_returned_whole [OF a b c d(1) e d(2)] a b c d e
  show ?thesis by blast
qed

section \<open>Record assembly\<close>

lemma norm_total: "norm lib s = Inr (case norm_try lib s of Inl e \<Rightarrow> s | Inr t \<Rightarrow> t)"
  by (simp add: norm_def split: sum.splits)

lemma pick_io_total: "\<exists>inp out. pick_io lib bs = Inr (inp, out)"
  by (simp add: pick_io_def norm_total split: prod.splits)

lemma index_run_Suc:
  "idx # map (\<lambda>k. idx + 1 + int k) [0..<n] = map (\<lambda>k. idx + int k) [0..<Suc n]"
  by (induction n) simp_all

lemma index_run_append:
  "map (\<lambda>k. idx + int k) [0..<a] @ map (\<lambda>k. idx + int a + int k) [0..<b]
     = map (\<lambda>k. idx + int k) [0..<a + b]"
  by (induction b) simp_all

lemma url_loop_rows:
  "\<exists>new. url_loop lib name txt urls (rows, idx) = Inr (rows @ new, idx + int (length new)) \<and>
     map (\<lambda>r. (FileName r, URL r)) new = map (\<lambda>u. (name, u)) urls \<and>
     map Index new = map (\<lambda>k. idx + int k) [0..<length new]"
proof (induction urls arbitrary: rows idx)
  case Nil
  show ?case by simp
next
  case (Cons url urls)
  obtain inp out where io: "pick_io lib (new_objs (url_blocks txt url)) = Inr (inp, out)"
    using pick_io_total by blast
  let ?r = "\<lparr>Index = idx, FileName = name, URL = url, Method = ustr ''POST'',
             Input = inp, ResponseCode = ustr ''200'', Output = out\<rparr>"
  from Cons [of "rows @ [?r]" "idx + 1"] obtain new where
    l: "url_loop lib name txt urls (rows @ [?r], idx + 1)
          = Inr ((rows @ [?r]) @ new, idx + 1 + int (length new))"
    and e: "map (\<lambda>r. (FileName r, URL r)) new = map (\<lambda>u. (name, u)) urls"
    and i: "map Index new = map (\<lambda>k. idx + 1 + int k) [0..<length new]"
    by blast
  have "url_loop lib name txt (url # urls) (rows, idx)
          = Inr (rows @ (?r # new), idx + int (length (?r # new)))"
    using io l by simp
  moreover have "map (\<lambda>r. (FileName r, URL r)) (?r # new) = map (\<lambda>u. (name, u)) (url # urls)"
    using e by simp
  moreover have "map Index (?r # new) = map (\<lambda>k. idx + int k) [0..<length (?r # new)]"
    using i index_run_Suc [of idx "length new"] by simp
  ultimately show ?case by blast
qed

lemma doc_step_rows:
  "\<exists>new. doc_step lib pdf (rows, idx) = Inr (rows @ new, idx + int (length new)) \<and>
     map (\<lambda>r. (FileName r, URL r)) new = doc_entries pdf \<and>
     map Index new = map (\<lambda>k. idx + int k) [0..<length new] \<and>
     (strip (read_pdf_text (snd pdf)) = [] \<longrightarrow>
        new = [\<lparr>Index = idx, FileName = fst pdf, URL = [], Method = ustr ''POST'',
                 Input = [], ResponseCode = ustr ''200'', Output = []\<rparr>])"
proof (cases "strip (read_pdf_text (snd pdf)) = []")
  case True
  let ?r = "\<lparr>Index = idx, FileName = fst pdf, URL = [], Method = ustr ''POST'',
             Input = [], ResponseCode = ustr ''200'', Output = []\<rparr>"
  have "doc_step lib pdf (rows, idx) = Inr (rows @ [?r], idx + int (length [?r]))"
    using True by (simp add: doc_step_def)
  moreover have "map (\<lambda>r. (FileName r, URL r)) [?r] = doc_entries pdf"
    using True by (simp add: doc_entries_def)
  moreover have "map Index [?r] = map (\<lambda>k. idx + int k) [0..<length [?r]]"
    by simp
  ultimately show ?thesis by blast
next
  case False
  from url_loop_rows [of lib "fst pdf" "read_pdf_text (snd pdf)" "find_urls (read_pdf_text (snd pdf))" rows idx]
  obtain new where
    "url_loop lib (fst pdf) (read_pdf_text (snd pdf)) (find_urls (read_pdf_text (snd pdf))) (rows, idx)
       = Inr (rows @ new, idx + int (length new))"
    "map (\<lambda>r. (FileName r, URL r)) new
       = map (\<lambda>u. (fst pdf, u)) (find_urls (read_pdf_text (snd pdf)))"
    "map Index new = map (\<lambda>k. idx + int k) [0..<length new]"
    by blast
  with False show ?thesis
    by (auto simp: doc_step_def doc_entries_def Let_def)
qed

lemma doc_loop_rows:
  "\<exists>new. doc_loop lib pdfs (rows, idx) = Inr (rows @ new, idx + int (length new)) \<and>
     map (\<lambda>r. (FileName r, URL r)) new = concat (map doc_entries pdfs) \<and>
     map Index new = map (\<lambda>k. idx + int k) [0..<length new]"
proof (induction pdfs arbitrary: rows idx)
  case Nil
  show ?case by simp
next
  case (Cons pdf pdfs)
  from doc_step_rows [of lib pdf rows idx] obtain n1 where
    s: "doc_step lib pdf (rows, idx) = Inr (rows @ n1, idx + int (length n1))"
    and e1: "map (\<lambda>r. (FileName r, URL r)) n1 = doc_entries pdf"
    and i1: "map Index n1 = map (\<lambda>k. idx + int k) [0..<length n1]"
    by blast
  from Cons [of "rows @ n1" "idx + int (length n1)"] obtain n2 where
    l: "doc_loop lib pdfs (rows @ n1, idx + int (length n1))
          = Inr ((rows @ n1) @ n2, idx + int (length n1) + int (length n2))"
    and e2: "map (\<lambda>r. (FileName r, URL r)) n2 = concat (map doc_entries pdfs)"
    and i2: "map Index n2 = map (\<lambda>k. idx + int (length n1) + int k) [0..<length n2]"
    by blast
  have "doc_loop lib (pdf # pdfs) (rows, idx) = Inr (rows @ (n1 @ n2), idx + int (length (n1 @ n2)))"
    using s l by simp
  moreover have "map (\<lambda>r. (FileName r, URL r)) (n1 @ n2) = concat (map doc_entries (pdf # pdfs))"
    using e1 e2 by simp
  moreover have "map Index (n1 @ n2) = map (\<lambda>k. idx + int k) [0..<length (n1 @ n2)]"
    using i1 i2 index_run_append [of idx "length n1" "length n2"] by simp
  ultimately show ?case by blast
qed

lemma entry_name: "x \<in> set (doc_entries q) \<Longrightarrow> fst x = fst q"
  by (auto simp: doc_entries_def split: if_splits)

lemma entries_names_sorted:
  "sorted (map fst pdfs) \<Longrightarrow> sorted (map fst (concat (map doc_entries pdfs)))"
proof (induction pdfs)
  case Nil
  show ?case by simp
next
  case (Cons pdf pdfs)
  have names: "map fst (doc_entries pdf) = replicate (length (doc_entries pdf)) (fst pdf)"
    by (simp add: doc_entries_def comp_def map_replicate_const)
  have own: "fst x = fst pdf" if "x \<in> set (doc_entries pdf)" for x
    using that by (rule entry_name)
  have rest: "\<exists>q \<in> set pdfs. fst y = fst q" if "y \<in> set (concat (map doc_entries pdfs))" for y
  proof -
    from that obtain q where q: "q \<in> set pdfs" "y \<in> set (doc_entries q)" by auto
    from q(2) have "fst y = fst q" by (rule entry_name)
    with q show ?thesis by blast
  qed
  have "sorted (map fst (doc_entries pdf))"
    unfolding names by (rule sorted_replicate)
  moreover have "sorted (map fst (concat (map doc_entries pdfs)))"
    using Cons by simp
  moreover have "\<forall>a \<in> set (map fst (doc_entries pdf)).
                  \<forall>b \<in> set (map fst (concat (map doc_entries pdfs))). a \<le> b"
  proof (intro ballI)
    fix a b
    assume "a \<in> set (map fst (doc_entries pdf))"
      and "b \<in> set (map fst (concat (map doc_entries pdfs)))"
    then obtain x y where x: "x \<in> set (doc_entries pdf)" "a = fst x"
      and y: "y \<in> set (concat (map doc_entries pdfs))" "b = fst y"
      unfolding set_map by blast
    from rest [OF y(1)] obtain q where "q \<in> set pdfs" "fst y = fst q" by blast
    with Cons.prems own [OF x(1)] x(2) y(2) show "a \<le> b" by auto
  qed
  ultimately have "sorted (map fst (doc_entries pdf) @ map fst (concat (map doc_entries pdfs)))"
    unfolding sorted_append by blast
  then show ?case by simp
qed

lemma blank_pages: "list_all (\<lambda>p. p = None \<or> p = Some []) pages \<Longrightarrow> read_pdf_text pages = []"
proof -
  assume "list_all (\<lambda>p. p = None \<or> p = Some []) pages"
  then have "page_lines pages = []"
    by (induction pages) auto
  then show ?thesis by (simp add: read_pdf_text_def)
qed

lemma index_run_from_one: "map (\<lambda>k. 1 + int k) [0..<n] = map int [1..<Suc n]"
  by (induction n) simp_all

lemma index_run_strict: "sorted_wrt (<) (map int [1..<Suc n])"
  by (simp add: sorted_wrt_map del: upt_Suc)

text \<open>
  Claim C1, as stated: the document \<^verbatim>\<open>notes.pdf\<close> has the text \<^verbatim>\<open>no endpoint here\<close>,
  which is not blank and declares no endpoint; the assembler appends no record for it.
\<close>

theorem nonblank_document_without_endpoint:
  "strip (read_pdf_text (snd doc_plain)) \<noteq> [] \<and>
   find_urls (read_pdf_text (snd doc_plain)) = [] \<and>
   doc_step tiny_lib doc_plain ([], 1) = Inr ([], 1)"
  by (simp add: doc_step_def doc_plain_def read_pdf_text_def replace_char_def strip_def
      isspace_def nonspace_def find_urls_def match_post_def ustr_def)

text \<open>
  Claim C1, amended. For every document the assembler appends records and advances the
  index by their number. A document whose text is blank (in particular one whose pages
  yield no characters) appends exactly one placeholder record with empty URL, input and
  output. Any other document with N discovered endpoints appends exactly N records, one
  for each endpoint in discovery order, all with the document's file name; N may be zero.
\<close>

theorem document_record_count:
  "\<exists>new. doc_step lib (name, pages) (rows, idx) = Inr (rows @ new, idx + int (length new)) \<and>
     (strip (read_pdf_text pages) = [] \<longrightarrow>
        new = [\<lparr>Index = idx, FileName = name, URL = [], Method = ustr ''POST'',
                 Input = [], ResponseCode = ustr ''200'', Output = []\<rparr>]) \<and>
     (strip (read_pdf_text pages) \<noteq> [] \<longrightarrow>
        length new = length (find_urls (read_pdf_text pages)) \<and>
        map URL new = find_urls (read_pdf_text pages) \<and>
        list_all (\<lambda>r. FileName r = name) new) \<and>
     (list_all (\<lambda>p. p = None \<or> p = Some []) pages \<longrightarrow> strip (read_pdf_text pages) = [])"
proof -
  from doc_step_rows [of lib "(name, pages)" rows idx] obtain new where
    s: "doc_step lib (name, pages) (rows, idx) = Inr (rows @ new, idx + int (length new))"
    and e: "map (\<lambda>r. (FileName r, URL r)) new = doc_entries (name, pages)"
    and p: "strip (read_pdf_text pages) = [] \<longrightarrow>
        new = [\<lparr>Index = idx, FileName = name, URL = [], Method = ustr ''POST'',
                 Input = [], ResponseCode = ustr ''200'', Output = []\<rparr>]"
    by auto
  have n: "length new = length (find_urls (read_pdf_text pages)) \<and>
        map URL new = find_urls (read_pdf_text pages) \<and>
        list_all (\<lambda>r. FileName r = name) new"
    if nb: "strip (read_pdf_text pages) \<noteq> []"
  proof -
    from e nb have e': "map (\<lambda>r. (FileName r, URL r)) new
        = map (\<lambda>u. (name, u)) (find_urls (read_pdf_text pages))"
      by (simp add: doc_entries_def)
    from arg_cong [OF e', of "map snd"] have u: "map URL new = find_urls (read_pdf_text pages)"
      by (simp add: comp_def)
    from arg_cong [OF e', of "map fst"] have "map FileName new = map (\<lambda>u. name) (find_urls (read_pdf_text pages))"
      by (simp add: comp_def)
    then have "\<forall>x \<in> set (map FileName new). x = name"
      by (simp add: map_replicate_const)
    then have "list_all (\<lambda>r. FileName r = name) new"
      by (simp add: list_all_iff)
    moreover from arg_cong [OF u, of length] have "length new = length (find_urls (read_pdf_text pages))"
      by simp
    ultimately show ?thesis using u by simp
  qed
  have b: "list_all (\<lambda>p. p = None \<or> p = Some []) pages \<longrightarrow> strip (read_pdf_text pages) = []"
    using blank_pages [of pages] by (auto simp: strip_def)
  from s p n b show ?thesis by blast
qed

theorem document_record_count_witness:
  "list_all (\<lambda>p. p = None \<or> p = Some []) (snd doc_empty) \<and>
   doc_step tiny_lib doc_empty ([], 1)
     = Inr ([\<lparr>Index = 1, FileName = ustr ''empty.pdf'', URL = [], Method = ustr ''POST'',
               Input = [], ResponseCode = ustr ''200'', Output = []\<rparr>], 2) \<and>
   strip (read_pdf_text (snd doc_a)) \<noteq> [] \<and>
   (\<exists>new. doc_step tiny_lib doc_a ([], 1) = Inr (new, 3) \<and>
      map URL new = [ustr ''/a1'', ustr ''/a2''])"
proof -
  have blank: "list_all (\<lambda>p. p = None \<or> p = Some []) (snd doc_empty)"
    by (simp add: doc_empty_def)
  from document_record_count [of tiny_lib "ustr ''empty.pdf''" "snd doc_empty" "[]" 1] blank
  have e: "doc_step tiny_lib (ustr ''empty.pdf'', snd doc_empty) ([], 1)
     = Inr ([\<lparr>Index = 1, FileName = ustr ''empty.pdf'', URL = [], Method = ustr ''POST'',
               Input = [], ResponseCode = ustr ''200'', Output = []\<rparr>], 2)"
    by auto
  have nb: "strip (read_pdf_text (snd doc_a)) \<noteq> []"
    by (simp add: doc_a_def read_pdf_text_def replace_char_def strip_def isspace_def ustr_def)
  have fu: "find_urls (read_pdf_text (snd doc_a)) = [ustr ''/a1'', ustr ''/a2'']"
    by (simp add: doc_a_def read_pdf_text_def replace_char_def strip_def isspace_def
        nonspace_def find_urls_def match_post_def ustr_def)
  from document_record_count [of tiny_lib "ustr ''a.pdf''" "snd doc_a" "[]" 1] nb fu
  have a: "\<exists>new. doc_step tiny_lib (ustr ''a.pdf'', snd doc_a) ([], 1) = Inr (new, 3) \<and>
      map URL new = [ustr ''/a1'', ustr ''/a2'']"
    by auto
  have "(ustr ''empty.pdf'', snd doc_empty) = doc_empty" "(ustr ''a.pdf'', snd doc_a) = doc_a"
    by (simp_all add: doc_empty_def doc_a_def)
  with blank e nb a show ?thesis by simp
qed

text \<open>
  Claim C7. The run never fails, and the indices of its records are 1, 2, 3, ... without
  gap or reset between documents. The records follow the documents in sorted file-name
  order and, within a document, the discovery order of its endpoints. Two documents with
  two records each get the indices 1, 2, 3, 4.
\<close>

theorem global_index_sequence:
  "\<exists>rows. main_rows lib files = Inr rows \<and>
     map Index rows = map int [1..<Suc (length rows)] \<and>
     sorted_wrt (<) (map Index rows) \<and>
     map (\<lambda>r. (FileName r, URL r)) rows = concat (map doc_entries (sort_key fst files)) \<and>
     sorted (map FileName rows) \<and>
     (\<forall>d1 d2. files = [d1, d2] \<and> length (doc_entries d1) = 2 \<and> length (doc_entries d2) = 2
        \<longrightarrow> map Index rows = [1, 2, 3, 4])"
proof -
  from doc_loop_rows [of lib "sort_key fst files" "[]" 1] obtain rows where
    l: "doc_loop lib (sort_key fst files) ([], 1) = Inr (rows, 1 + int (length rows))"
    and e: "map (\<lambda>r. (FileName r, URL r)) rows = concat (map doc_entries (sort_key fst files))"
    and i: "map Index rows = map (\<lambda>k. 1 + int k) [0..<length rows]"
    by auto
  have m: "main_rows lib files = Inr rows"
    using l by (simp add: main_rows_def)
  have ix: "map Index rows = map int [1..<Suc (length rows)]"
    using i by (simp only: index_run_from_one)
  have "sorted (map fst (sort_key fst files))"
    by (rule sorted_sort_key)
  then have "sorted (map fst (concat (map doc_entries (sort_key fst files))))"
    by (rule entries_names_sorted)
  moreover from arg_cong [OF e, of "map fst"]
  have "map FileName rows = map fst (concat (map doc_entries (sort_key fst files)))"
    by (simp add: comp_def)
  ultimately have srt: "sorted (map FileName rows)"
    by simp
  have four: "map Index rows = [1, 2, 3, 4]"
    if "files = [d1, d2]" "length (doc_entries d1) = 2" "length (doc_entries d2) = 2"
    for d1 d2
  proof -
    from arg_cong [OF e, of length] that have "length rows = 4"
      by (auto simp: insort_key.simps)
    with ix show ?thesis by (simp add: upt_rec)
  qed
  have strict: "sorted_wrt (<) (map Index rows)"
    unfolding ix by (rule index_run_strict)
  from m ix strict e srt four show ?thesis by blast
qed

theorem global_index_sequence_witness:
  "length (doc_entries doc_b) = 2 \<and> length (doc_entries doc_a) = 2 \<and>
   (\<exists>rows. main_rows tiny_lib [doc_b, doc_a] = Inr rows \<and>
      map Index rows = [1, 2, 3, 4] \<and>
      map (\<lambda>r. (FileName r, URL r)) rows
        = [(ustr ''a.pdf'', ustr ''/a1''), (ustr ''a.pdf'', ustr ''/a2''),
           (ustr ''b.pdf'', ustr ''/b1''), (ustr ''b.pdf'', ustr ''/b2'')])"
proof -
  have nb: "strip (read_pdf_text (snd doc_a)) \<noteq> []"
    by (simp add: doc_a_def read_pdf_text_def replace_char_def strip_def isspace_def ustr_def)
  have fu: "find_urls (read_pdf_text (snd doc_a)) = [ustr ''/a1'', ustr ''/a2'']"
    by (simp add: doc_a_def read_pdf_text_def replace_char_def strip_def isspace_def
        nonspace_def find_urls_def match_post_def ustr_def)
  have fa: "fst doc_a = ustr ''a.pdf''"
    by (simp add: doc_a_def)
  have d1: "doc_entries doc_a = [(ustr ''a.pdf'', ustr ''/a1''), (ustr ''a.pdf'', ustr ''/a2'')]"
    by (simp only: doc_entries_def nb fu fa if_False list.map)
  have d2: "doc_entries doc_b = [(ustr ''b.pdf'', ustr ''/b1''), (ustr ''b.pdf'', ustr ''/b2'')]"
    by (simp add: doc_entries_def doc_b_def read_pdf_text_def replace_char_def strip_def
        isspace_def nonspace_def find_urls_def match_post_def ustr_def)
  have srt: "sort_key fst [doc_b, doc_a] = [doc_a, doc_b]"
    by (simp add: doc_a_def doc_b_def ustr_def)
  from global_index_sequence [of tiny_lib "[doc_b, doc_a]"] obtain rows where
    all: "main_rows tiny_lib [doc_b, doc_a] = Inr rows \<and>
     map Index rows = map int [1..<Suc (length rows)] \<and>
     sorted_wrt (<) (map Index rows) \<and>
     map (\<lambda>r. (FileName r, URL r)) rows
       = concat (map doc_entries (sort_key fst [doc_b, doc_a])) \<and>
     sorted (map FileName rows) \<and>
     (\<forall>d1 d2. [doc_b, doc_a] = [d1, d2] \<and> length (doc_entries d1) = 2 \<and>
        length (doc_entries d2) = 2 \<longrightarrow> map Index rows = [1, 2, 3, 4])" ..
  note m = all [THEN conjunct1]
  note e = all [THEN conjunct2, THEN conjunct2, THEN conjunct2, THEN conjunct1]
  note f = all [THEN conjunct2, THEN conjunct2, THEN conjunct2, THEN conjunct2, THEN conjunct2]
  have l: "length (doc_entries doc_b) = 2" "length (doc_entries doc_a) = 2"
    unfolding d1 d2 by simp_all
  have "[doc_b, doc_a] = [doc_b, doc_a] \<and> length (doc_entries doc_b) = 2 \<and>
        length (doc_entries doc_a) = 2"
    using l by (intro conjI refl)
  from f [rule_format, OF this] have i: "map Index rows = [1, 2, 3, 4]" .
  have "concat (map doc_entries (sort_key fst [doc_b, doc_a]))
      = [(ustr ''a.pdf'', ustr ''/a1''), (ustr ''a.pdf'', ustr ''/a2''),
         (ustr ''b.pdf'', ustr ''/b1''), (ustr ''b.pdf'', ustr ''/b2'')]"
    unfolding srt by (simp add: d1 d2)
  with e have e': "map (\<lambda>r. (FileName r, URL r)) rows
      = [(ustr ''a.pdf'', ustr ''/a1''), (ustr ''a.pdf'', ustr ''/a2''),
         (ustr ''b.pdf'', ustr ''/b1''), (ustr ''b.pdf'', ustr ''/b2'')]"
    by (simp only:)
  show ?thesis
    by (intro conjI exI [of _ rows] l m i e')
qed

end
